theory Spec2Isabelle
  imports Complex_Main "HOL-Library.Word" "HOL-Library.Log_Nat"
begin

section \<open>JavaScript numbers\<close>

text \<open>
  A JavaScript Number is an IEEE 754 binary64 value. The model works on real numbers: a
  finite Number is the real number it denotes, and every arithmetic operation computes
  the exact result and rounds it to the nearest binary64 value, a tie going to the even
  significand (\<open>round64\<close>). A decimal literal of the source denotes the binary64 value
  nearest to it. Results beyond the range of binary64 (the infinities) and NaN are
  outside the model, and the two zeros are one value (\<^verbatim>\<open>===\<close> does not tell them apart).
\<close>

text \<open>\<open>pow2 k\<close> is \<open>2\<^sup>k\<close> for an integer \<open>k\<close>.\<close>

definition pow2 :: "int \<Rightarrow> real" where
  "pow2 k = (if 0 \<le> k then 2 ^ nat k else 1 / 2 ^ nat (- k))"

text \<open>
  The binary exponent of a positive number: the \<open>e\<close> with \<open>2\<^sup>e \<le> x < 2\<^sup>e\<^sup>+\<^sup>1\<close>, computed from
  the bit length of the integer part of \<open>x\<close> or of \<open>1 / x\<close>.
\<close>

definition exponent :: "real \<Rightarrow> int" where
  "exponent x = (if 1 \<le> x then bitlen \<lfloor>x\<rfloor> - 1 else - bitlen (\<lceil>1 / x\<rceil> - 1))"

text \<open>The nearest integer, a tie going to the even one.\<close>

definition round_half_even :: "real \<Rightarrow> int" where
  "round_half_even q =
     (let f = \<lfloor>q\<rfloor>; d = q - of_int f
      in if d < 1 / 2 then f
         else if 1 / 2 < d then f + 1
         else if even f then f else f + 1)"

text \<open>
  Rounding to binary64: the significand has 53 bits, so the spacing of the values around
  \<open>x\<close> is \<open>2\<^sup>e\<^sup>-\<^sup>5\<^sup>2\<close> for the exponent \<open>e\<close> of \<open>x\<close>, and \<open>2\<^sup>-\<^sup>1\<^sup>0\<^sup>7\<^sup>4\<close> below the smallest normal
  value \<open>2\<^sup>-\<^sup>1\<^sup>0\<^sup>2\<^sup>2\<close>.
\<close>

definition round64 :: "real \<Rightarrow> real" where
  "round64 x =
     (if x = 0 then 0
      else
        (let e = max (exponent \<bar>x\<bar>) (- 1022);
             ulp = pow2 (e - 52)
         in of_int (round_half_even (x / ulp)) * ulp))"

text \<open>The operators \<^verbatim>\<open>+\<close>, \<^verbatim>\<open>-\<close> and \<^verbatim>\<open>*\<close> on Numbers.\<close>

definition fadd :: "real \<Rightarrow> real \<Rightarrow> real" where
  "fadd x y = round64 (x + y)"

definition fsub :: "real \<Rightarrow> real \<Rightarrow> real" where
  "fsub x y = round64 (x - y)"

definition fmul :: "real \<Rightarrow> real \<Rightarrow> real" where
  "fmul x y = round64 (x * y)"

section \<open>Scheduler (src/app/src/App.jsx, lines 8 and 104-155)\<close>

text \<open>
  A value passed as the grade action is any JavaScript value; the comparison
  \<^verbatim>\<open>action === "again"\<close> holds only for a string with exactly that content.
\<close>

datatype jsval =
  JSUndefined
  | JSNull
  | JSBool bool
  | JSNumber real
  | JSString string

text \<open>
  A card object. The six scheduling properties are the record's fields; every other own
  property of the object (id, word, rawWord, pos, hanja, level, rank, ...) lives in the
  record's extension part, which \<^verbatim>\<open>{ ...card }\<close> copies as it is.

  The record is polymorphic in the type of a field: in a card as it is passed in, a
  property may be absent (undefined or null), so a field is an \<open>option\<close>; after the six
  \<^verbatim>\<open>??=\<close> assignments every field holds a value.
\<close>

record ('n, 's) card =
  ease :: 'n
  intervalDays :: 'n
  reps :: 'n
  lapses :: 'n
  state :: 's
  due :: 'n

type_synonym 'a stored_card = "(real option, string option, 'a) card_scheme"
type_synonym 'a review_state = "(real, string, 'a) card_scheme"

text \<open>\<^verbatim>\<open>const MIN_EASE = 1.3\<close>: the binary64 value nearest to 1.3.\<close>

definition MIN_EASE :: real where
  "MIN_EASE = round64 1.3"

text \<open>
  \<^verbatim>\<open>ts + minutes * 60 * 1000\<close> and its two siblings: the products are taken from the
  left, each one rounded, then the sum.
\<close>

definition addMinutes :: "real \<Rightarrow> real \<Rightarrow> real" where
  "addMinutes ts minutes = fadd ts (fmul (fmul minutes 60) 1000)"

definition addHours :: "real \<Rightarrow> real \<Rightarrow> real" where
  "addHours ts hours = fadd ts (fmul (fmul (fmul hours 60) 60) 1000)"

definition addDays :: "real \<Rightarrow> real \<Rightarrow> real" where
  "addDays ts days = fadd ts (fmul (fmul (fmul (fmul days 24) 60) 60) 1000)"

text \<open>
  \<^verbatim>\<open>Math.round\<close>: the nearest integer, a tie going towards plus infinity. On a binary64
  value the result is a binary64 value again, so nothing is rounded a second time.
\<close>

definition Math_round :: "real \<Rightarrow> real" where
  "Math_round x = of_int \<lfloor>x + 1 / 2\<rfloor>"

text \<open>\<^verbatim>\<open>x ?? d\<close>: the value of \<open>x\<close> unless it is undefined or null.\<close>

definition nullish :: "'v option \<Rightarrow> 'v \<Rightarrow> 'v" where
  "nullish x d = (case x of None \<Rightarrow> d | Some v \<Rightarrow> v)"

text \<open>
  The head of \<^verbatim>\<open>reviewCard\<close>: the copy \<^verbatim>\<open>let c = { ...card }\<close> followed by
  \<^verbatim>\<open>c.ease ??= 2.5; c.intervalDays ??= 0; c.reps ??= 0; c.lapses ??= 0;
  c.state ??= "new"; c.due ??= now\<close>. The literal 2.5 is a binary64 value itself.
\<close>

definition hydrate :: "'a stored_card \<Rightarrow> real \<Rightarrow> 'a review_state" where
  "hydrate c now =
     \<lparr> ease = nullish (ease c) 2.5,
       intervalDays = nullish (intervalDays c) 0,
       reps = nullish (reps c) 0,
       lapses = nullish (lapses c) 0,
       state = nullish (state c) ''new'',
       due = nullish (due c) now,
       \<dots> = card.more c \<rparr>"

text \<open>A fully populated card seen as a card object again: every property is present.\<close>

definition present :: "'a review_state \<Rightarrow> 'a stored_card" where
  "present s =
     \<lparr> ease = Some (ease s),
       intervalDays = Some (intervalDays s),
       reps = Some (reps s),
       lapses = Some (lapses s),
       state = Some (state s),
       due = Some (due s),
       \<dots> = card.more s \<rparr>"

text \<open>
  \<^verbatim>\<open>reviewCard(card, action, now)\<close>. Each \<open>let\<close> is one assignment of the source, in
  the source's order; the literals 0.2 and 0.05 are the binary64 values nearest to them.
  The default \<^verbatim>\<open>now = Date.now()\<close> is the caller's concern: the model always takes the
  timestamp.
\<close>

definition reviewCard :: "'a stored_card \<Rightarrow> jsval \<Rightarrow> real \<Rightarrow> 'a review_state" where
  "reviewCard crd action now =
     (let c = hydrate crd now in
      if action = JSString ''again'' then
        (let c = c\<lparr>lapses := fadd (lapses c) 1\<rparr>;
             c = c\<lparr>reps := 0\<rparr>;
             c = c\<lparr>intervalDays := 0\<rparr>;
             c = c\<lparr>ease := max MIN_EASE (fsub (ease c) (round64 0.2))\<rparr>;
             c = c\<lparr>state := ''learning''\<rparr>;
             c = c\<lparr>due := addMinutes now 10\<rparr>
         in c)
      else if action = JSString ''learning'' then
        (let c = c\<lparr>state := ''learning''\<rparr>;
             c = c\<lparr>reps := min (fadd (reps c) 1) 2\<rparr>;
             c = c\<lparr>due := addHours now 6\<rparr>
         in c)
      else
        (let c = c\<lparr>reps := fadd (reps c) 1\<rparr>;
             c = (if intervalDays c \<le> 0 then c\<lparr>intervalDays := 1\<rparr>
                  else if intervalDays c = 1 then c\<lparr>intervalDays := 3\<rparr>
                  else c\<lparr>intervalDays := Math_round (fmul (intervalDays c) (ease c))\<rparr>);
             c = c\<lparr>ease := fadd (ease c) (round64 0.05)\<rparr>;
             c = c\<lparr>state := ''known''\<rparr>;
             c = c\<lparr>due := addDays now (intervalDays c)\<rparr>
         in c))"

text \<open>\<^verbatim>\<open>isDue(card, now)\<close>: \<^verbatim>\<open>(card.due ?? 0) <= now\<close>.\<close>

definition isDue :: "'a stored_card \<Rightarrow> real \<Rightarrow> bool" where
  "isDue c now \<longleftrightarrow> nullish (due c) 0 \<le> now"

text \<open>
  A run of gradings: each result is stored and passed to the next call, as
  \<^verbatim>\<open>act\<close> does with \<^verbatim>\<open>setCards\<close>.
\<close>

fun grade_all :: "'a review_state \<Rightarrow> (jsval \<times> real) list \<Rightarrow> 'a review_state" where
  "grade_all s [] = s"
| "grade_all s ((action, now) # gs) = grade_all (reviewCard (present s) action now) gs"

section \<open>Matcher (src/app/src/App.jsx, lines 40-78)\<close>

text \<open>
  A JavaScript string is a sequence of UTF-16 code units: \<^verbatim>\<open>length\<close> counts code units
  and \<^verbatim>\<open>s[i]\<close> reads one. The arguments are strings, on which
  \<^verbatim>\<open>String(s ?? "")\<close> is the identity.
\<close>

type_synonym code_unit = "16 word"
type_synonym jsstring = "code_unit list"

text \<open>
  The code units that \<^verbatim>\<open>trim\<close> removes and that \<^verbatim>\<open>\s\<close> matches: the WhiteSpace and
  LineTerminator productions of ECMAScript.
\<close>

definition is_ws :: "code_unit \<Rightarrow> bool" where
  "is_ws c \<longleftrightarrow>
     c = 0x0009 \<or> c = 0x000A \<or> c = 0x000B \<or> c = 0x000C \<or> c = 0x000D \<or> c = 0x0020 \<or>
     c = 0x00A0 \<or> c = 0x1680 \<or> (0x2000 \<le> c \<and> c \<le> 0x200A) \<or> c = 0x2028 \<or>
     c = 0x2029 \<or> c = 0x202F \<or> c = 0x205F \<or> c = 0x3000 \<or> c = 0xFEFF"

definition trim :: "jsstring \<Rightarrow> jsstring" where
  "trim s = rev (dropWhile is_ws (rev (dropWhile is_ws s)))"

text \<open>\<^verbatim>\<open>.replace(/\s+/g, "")\<close>: every run of white space is deleted.\<close>

definition replace_ws :: "jsstring \<Rightarrow> jsstring" where
  "replace_ws s = filter (\<lambda>c. \<not> is_ws c) s"

text \<open>
  \<^verbatim>\<open>normalizeAnswer(s)\<close>. The built-in \<^verbatim>\<open>toLowerCase\<close> follows the Unicode case
  mappings, which are not part of the repository: it is the parameter \<open>toLowerCase\<close>.
\<close>

definition normalizeAnswer :: "(jsstring \<Rightarrow> jsstring) \<Rightarrow> jsstring \<Rightarrow> jsstring" where
  "normalizeAnswer toLowerCase s = toLowerCase (replace_ws (trim s))"

text \<open>
  The table \<open>dp\<close>: an array of rows. \<open>get2 dp i j\<close> is \<^verbatim>\<open>dp[i][j]\<close> and
  \<open>set2 dp i j v\<close> is \<^verbatim>\<open>dp[i][j] = v\<close>. The loops only touch rows \<open>0..n\<close> and columns
  \<open>0..m\<close> of a table of \<open>n + 1\<close> rows and \<open>m + 1\<close> columns, and read \<open>s[i - 1]\<close> and
  \<open>t[j - 1]\<close> for \<open>1 \<le> i \<le> n\<close> and \<open>1 \<le> j \<le> m\<close>: no access is out of range (the
  invariants \<open>table\<close> and \<open>filled\<close> below carry the bounds through the loops).
\<close>

definition get2 :: "nat list list \<Rightarrow> nat \<Rightarrow> nat \<Rightarrow> nat" where
  "get2 dp i j = dp ! i ! j"

definition set2 :: "nat list list \<Rightarrow> nat \<Rightarrow> nat \<Rightarrow> nat \<Rightarrow> nat list list" where
  "set2 dp i j v = dp[i := (dp ! i)[j := v]]"

text \<open>\<^verbatim>\<open>for (let i = 0; i <= n; i++) dp[i][0] = i;\<close>\<close>

function loop_col :: "nat \<Rightarrow> nat \<Rightarrow> nat list list \<Rightarrow> nat list list" where
  "loop_col n i dp = (if i \<le> n then loop_col n (i + 1) (set2 dp i 0 i) else dp)"
  by pat_completeness auto
termination
  by (relation "measure (\<lambda>(n, i, dp). n + 1 - i)") auto

text \<open>\<^verbatim>\<open>for (let j = 0; j <= m; j++) dp[0][j] = j;\<close>\<close>

function loop_row :: "nat \<Rightarrow> nat \<Rightarrow> nat list list \<Rightarrow> nat list list" where
  "loop_row m j dp = (if j \<le> m then loop_row m (j + 1) (set2 dp 0 j j) else dp)"
  by pat_completeness auto
termination
  by (relation "measure (\<lambda>(m, j, dp). m + 1 - j)") auto

text \<open>The inner loop \<^verbatim>\<open>for (let j = 1; j <= m; j++)\<close> of row \<open>i\<close>, from column \<open>j\<close> on.\<close>

function loop_j :: "'c list \<Rightarrow> 'c list \<Rightarrow> nat \<Rightarrow> nat \<Rightarrow> nat \<Rightarrow> nat list list \<Rightarrow> nat list list" where
  "loop_j s t m i j dp =
     (if j \<le> m then
        (let cost = (if s ! (i - 1) = t ! (j - 1) then 0 else 1);
             dp = set2 dp i j
                    (min (get2 dp (i - 1) j + 1)
                      (min (get2 dp i (j - 1) + 1)
                        (get2 dp (i - 1) (j - 1) + cost)))
         in loop_j s t m i (j + 1) dp)
      else dp)"
  by pat_completeness auto
termination
  by (relation "measure (\<lambda>(s, t, m, i, j, dp). m + 1 - j)") auto

text \<open>The outer loop \<^verbatim>\<open>for (let i = 1; i <= n; i++)\<close>, from row \<open>i\<close> on.\<close>

function loop_i :: "'c list \<Rightarrow> 'c list \<Rightarrow> nat \<Rightarrow> nat \<Rightarrow> nat \<Rightarrow> nat list list \<Rightarrow> nat list list" where
  "loop_i s t n m i dp =
     (if i \<le> n then loop_i s t n m (i + 1) (loop_j s t m i 1 dp) else dp)"
  by pat_completeness auto
termination
  by (relation "measure (\<lambda>(s, t, n, m, i, dp). n + 1 - i)") auto

text \<open>
  \<^verbatim>\<open>levenshtein(a, b)\<close>. \<^verbatim>\<open>Array.from({ length: n + 1 }, () => Array(m + 1).fill(0))\<close>
  is a table of \<open>n + 1\<close> rows of \<open>m + 1\<close> zeros.
\<close>

definition levenshtein :: "(jsstring \<Rightarrow> jsstring) \<Rightarrow> jsstring \<Rightarrow> jsstring \<Rightarrow> nat" where
  "levenshtein toLowerCase a b =
     (let s = normalizeAnswer toLowerCase a;
          t = normalizeAnswer toLowerCase b;
          n = length s;
          m = length t
      in if n = 0 then m
         else if m = 0 then n
         else
           (let dp = replicate (n + 1) (replicate (m + 1) 0);
                dp = loop_col n 0 dp;
                dp = loop_row m 0 dp;
                dp = loop_i s t n m 1 dp
            in get2 dp n m))"

text \<open>\<^verbatim>\<open>isCloseMatch(typed, answer)\<close>. The empty string is the only falsy string.\<close>

definition isCloseMatch :: "(jsstring \<Rightarrow> jsstring) \<Rightarrow> jsstring \<Rightarrow> jsstring \<Rightarrow> bool" where
  "isCloseMatch toLowerCase typed answer =
     (let a = normalizeAnswer toLowerCase answer;
          t = normalizeAnswer toLowerCase typed
      in if t = [] then False
         else if t = a then True
         else
           (let dist = levenshtein toLowerCase t a;
                tol = (if length a \<ge> 6 then 2 else 1)
            in dist \<le> (tol :: nat)))"

subsection \<open>The distance the specification describes\<close>

text \<open>
  The recurrence of the specification, cell by cell: \<open>dp[i][0] = i\<close>, \<open>dp[0][j] = j\<close> and
  \<open>dp[i][j] = min(dp[i-1][j] + 1, dp[i][j-1] + 1, dp[i-1][j-1] + (s[i-1] != t[j-1] ? 1 : 0))\<close>.
\<close>

fun recurrence :: "'c list \<Rightarrow> 'c list \<Rightarrow> nat \<Rightarrow> nat \<Rightarrow> nat" where
  "recurrence s t 0 j = j"
| "recurrence s t (Suc i) 0 = Suc i"
| "recurrence s t (Suc i) (Suc j) =
     min (recurrence s t i (Suc j) + 1)
       (min (recurrence s t (Suc i) j + 1)
         (recurrence s t i j + (if s ! i \<noteq> t ! j then 1 else 0)))"

definition distance :: "'c list \<Rightarrow> 'c list \<Rightarrow> nat" where
  "distance s t = recurrence s t (length s) (length t)"

text \<open>
  The classic distance: the least number of single-character edits that turn one string
  into the other. One edit inserts, deletes or replaces one character anywhere in the
  string, and each costs 1.
\<close>

inductive edit_step :: "'c list \<Rightarrow> 'c list \<Rightarrow> bool" where
  insertion: "edit_step (u @ v) (u @ c # v)"
| deletion: "edit_step (u @ c # v) (u @ v)"
| substitution: "edit_step (u @ c # v) (u @ d # v)"

text \<open>\<open>edits k xs ys\<close>: \<open>k\<close> edits, one after the other, turn \<open>xs\<close> into \<open>ys\<close>.\<close>

fun edits :: "nat \<Rightarrow> 'c list \<Rightarrow> 'c list \<Rightarrow> bool" where
  "edits 0 xs ys \<longleftrightarrow> xs = ys"
| "edits (Suc k) xs ys \<longleftrightarrow> (\<exists>zs. edit_step xs zs \<and> edits k zs ys)"

text \<open>The recurrence on the strings themselves, read from the front; used in the proofs.\<close>

fun lev :: "'c list \<Rightarrow> 'c list \<Rightarrow> nat" where
  "lev [] ys = length ys"
| "lev (x # xs) [] = Suc (length xs)"
| "lev (x # xs) (y # ys) =
     min (lev xs (y # ys) + 1)
       (min (lev (x # xs) ys + 1)
         (lev xs ys + (if x \<noteq> y then 1 else 0)))"

subsection \<open>Invariants of the table loops\<close>

text \<open>The table has \<open>n + 1\<close> rows of \<open>m + 1\<close> cells.\<close>

definition table :: "nat \<Rightarrow> nat \<Rightarrow> nat list list \<Rightarrow> bool" where
  "table n m dp \<longleftrightarrow> length dp = Suc n \<and> (\<forall>i\<le>n. length (dp ! i) = Suc m)"

text \<open>
  Row 0, column 0 and every cell before \<open>(i, j)\<close> in the order of the two nested loops
  hold the value of the recurrence.
\<close>

definition filled ::
  "'c list \<Rightarrow> 'c list \<Rightarrow> nat \<Rightarrow> nat \<Rightarrow> nat \<Rightarrow> nat \<Rightarrow> nat list list \<Rightarrow> bool" where
  "filled s t n m i j dp \<longleftrightarrow>
     table n m dp \<and>
     (\<forall>i'\<le>n. \<forall>j'\<le>m. i' = 0 \<or> j' = 0 \<or> i' < i \<or> (i' = i \<and> j' < j)
        \<longrightarrow> get2 dp i' j' = recurrence s t i' j')"

subsection \<open>What the matcher needs of \<^verbatim>\<open>toLowerCase\<close>\<close>

text \<open>
  The empty string stays empty, a lower-cased string is its own lower-case form, and
  lower-casing a string without white space brings none in.
\<close>

definition case_mapping :: "(jsstring \<Rightarrow> jsstring) \<Rightarrow> bool" where
  "case_mapping f \<longleftrightarrow>
     f [] = [] \<and>
     (\<forall>s. f (f s) = f s) \<and>
     (\<forall>s. (\<forall>c\<in>set s. \<not> is_ws c) \<longrightarrow> (\<forall>c\<in>set (f s). \<not> is_ws c))"

text \<open>
  An implementation of \<^verbatim>\<open>toLowerCase\<close> on ASCII text, where only the letters A to Z have
  a lower-case form: an instance of the parameter for concrete runs.
\<close>

definition ascii_lower :: "jsstring \<Rightarrow> jsstring" where
  "ascii_lower s = map (\<lambda>c. if 0x41 \<le> c \<and> c \<le> 0x5A then c + 0x20 else c) s"

section \<open>Properties of binary64 rounding\<close>

lemma pow2_pos: "0 < pow2 k"
  by (simp add: pow2_def)

lemma pow2_add: "pow2 (a + b) = pow2 a * pow2 b"
proof -
  have "pow2 k = 2 powi k" for k
    by (simp add: pow2_def power_int_def inverse_eq_divide power_one_over)
  then show ?thesis by (simp add: power_int_add)
qed

lemma pow2_nat: "pow2 (int n) = 2 ^ n"
  by (simp add: pow2_def)

lemma pow2_mono: "a \<le> b \<Longrightarrow> pow2 a \<le> pow2 b"
proof -
  assume "a \<le> b"
  then obtain n where "b = a + int n" by (metis zle_iff_zadd)
  then have "pow2 b = pow2 a * 2 ^ n" by (simp add: pow2_add pow2_nat)
  moreover have "(1::real) \<le> 2 ^ n" by simp
  ultimately show ?thesis using pow2_pos [of a] by (simp add: mult_le_cancel_left1)
qed

lemma exponent_bounds:
  assumes "0 < x"
  shows "pow2 (exponent x) \<le> x \<and> x < pow2 (exponent x + 1)"
proof (cases "1 \<le> x")
  case True
  let ?a = "\<lfloor>x\<rfloor>"
  have a: "0 < ?a" using True by simp
  have b: "2 ^ nat (bitlen ?a - 1) \<le> ?a \<and> ?a < 2 ^ nat (bitlen ?a)"
    using bitlen_bounds [OF a] .
  have bl: "1 \<le> bitlen ?a" using a by (simp add: bitlen_alt_def)
  have e: "exponent x = bitlen ?a - 1" using True by (simp add: exponent_def)
  have lo: "pow2 (bitlen ?a - 1) \<le> x"
  proof -
    have "real_of_int (2 ^ nat (bitlen ?a - 1)) \<le> real_of_int ?a"
      using b by linarith
    then have "(2::real) ^ nat (bitlen ?a - 1) \<le> of_int ?a" by simp
    also have "\<dots> \<le> x" by simp
    finally show ?thesis using bl by (simp add: pow2_def)
  qed
  have hi: "x < pow2 (bitlen ?a)"
  proof -
    have "?a + 1 \<le> 2 ^ nat (bitlen ?a)" using b by linarith
    then have "real_of_int (?a + 1) \<le> real_of_int (2 ^ nat (bitlen ?a))"
      by linarith
    then have "of_int ?a + 1 \<le> (2::real) ^ nat (bitlen ?a)" by simp
    moreover have "x < of_int ?a + 1" by linarith
    ultimately have "x < 2 ^ nat (bitlen ?a)" by linarith
    then show ?thesis using bl by (simp add: pow2_def)
  qed
  show ?thesis using lo hi e by simp
next
  case False
  let ?y = "1 / x"
  let ?c = "\<lceil>?y\<rceil>"
  have y: "1 < ?y" using False assms by simp
  have c: "0 < ?c - 1" using y by linarith
  let ?k = "bitlen (?c - 1)"
  have b: "2 ^ nat (?k - 1) \<le> ?c - 1 \<and> ?c - 1 < 2 ^ nat ?k"
    using bitlen_bounds [OF c] .
  have k: "1 \<le> ?k" using c by (simp add: bitlen_alt_def)
  have e: "exponent x = - ?k" using False by (simp add: exponent_def)
  have ylo: "2 ^ nat (?k - 1) < ?y"
  proof -
    have "real_of_int (2 ^ nat (?k - 1)) \<le> real_of_int (?c - 1)" using b by linarith
    moreover have "real_of_int (?c - 1) < ?y" by linarith
    ultimately show ?thesis by simp
  qed
  have yhi: "?y \<le> 2 ^ nat ?k"
  proof -
    have "?c \<le> 2 ^ nat ?k" using b by linarith
    then have "real_of_int ?c \<le> 2 ^ nat ?k"
      by (metis of_int_le_iff of_int_numeral of_int_power)
    with le_of_int_ceiling [of ?y] show ?thesis by (rule order_trans)
  qed
  have lo: "pow2 (- ?k) \<le> x"
  proof -
    have "1 / 2 ^ nat ?k \<le> x"
      using yhi assms by (simp add: field_simps)
    then show ?thesis using k by (simp add: pow2_def)
  qed
  have hi: "x < pow2 (- ?k + 1)"
  proof -
    have "x < 1 / 2 ^ nat (?k - 1)"
      using ylo assms by (simp add: field_simps)
    then show ?thesis using k by (auto simp add: pow2_def)
  qed
  show ?thesis using lo hi e by simp
qed

lemma round_half_even_int: "round_half_even (of_int m) = m"
  by (simp add: round_half_even_def)

lemma round_half_even_ge: "of_int m \<le> q \<Longrightarrow> m \<le> round_half_even q"
proof -
  assume "of_int m \<le> q"
  then have "m \<le> \<lfloor>q\<rfloor>" by (simp add: le_floor_iff)
  then show ?thesis by (simp add: round_half_even_def Let_def)
qed

lemma pow2_less_cancel: "pow2 a < pow2 b \<Longrightarrow> a < b"
  using pow2_mono [of b a] by (cases "a < b") simp_all

lemma round64_grid_ge:
  assumes "0 < x"
    and "of_int m * pow2 (max (exponent x) (- 1022) - 52) \<le> x"
  shows "of_int m * pow2 (max (exponent x) (- 1022) - 52) \<le> round64 x"
proof -
  let ?u = "pow2 (max (exponent x) (- 1022) - 52)"
  have u: "0 < ?u" by (rule pow2_pos)
  have "of_int m \<le> x / ?u" using assms(2) u by (simp add: pos_le_divide_eq)
  then have "m \<le> round_half_even (x / ?u)" by (rule round_half_even_ge)
  then have "of_int m * ?u \<le> of_int (round_half_even (x / ?u)) * ?u"
    using u by simp
  then show ?thesis using assms(1) by (simp add: round64_def Let_def)
qed

text \<open>
  Rounding never goes below a binary64 value that the exact result has reached (here a
  normal one: 53 significant bits, exponent at least the smallest).
\<close>

lemma round64_ge_double:
  assumes m: "2 ^ 52 \<le> m" "m < 2 ^ 53" and k: "- 1074 \<le> k"
    and x: "of_int m * pow2 k \<le> x"
  shows "of_int m * pow2 k \<le> round64 x"
proof -
  let ?c = "of_int m * pow2 k"
  have c_lo: "pow2 (k + 52) \<le> ?c"
  proof -
    have "(2::real) ^ 52 \<le> of_int m" using m(1) by (metis of_int_le_iff of_int_numeral of_int_power)
    then have "pow2 52 * pow2 k \<le> of_int m * pow2 k"
      using pow2_pos [of k] by (simp add: pow2_def)
    then show ?thesis by (simp add: pow2_add mult.commute)
  qed
  have c_hi: "?c < pow2 (k + 53)"
  proof -
    have "of_int m < (2::real) ^ 53" using m(2) by (metis of_int_less_iff of_int_numeral of_int_power)
    then have "of_int m * pow2 k < pow2 53 * pow2 k"
      using pow2_pos [of k] by (simp add: pow2_def)
    then show ?thesis by (simp add: pow2_add mult.commute)
  qed
  have xpos: "0 < x" using c_lo x pow2_pos [of "k + 52"] by linarith
  have eb: "pow2 (exponent x) \<le> x" "x < pow2 (exponent x + 1)"
    using exponent_bounds [OF xpos] by simp_all
  have "pow2 (k + 52) < pow2 (exponent x + 1)" using c_lo x eb(2) by linarith
  then have ex: "k + 52 \<le> exponent x" using pow2_less_cancel by fastforce
  show ?thesis
  proof (cases "exponent x = k + 52")
    case True
    then have "max (exponent x) (- 1022) - 52 = k" using k by simp
    then show ?thesis using round64_grid_ge [OF xpos, of m] x by simp
  next
    case False
    then have gt: "k + 53 \<le> exponent x" using ex by simp
    then have e: "max (exponent x) (- 1022) = exponent x" using k by simp
    have "of_int (2 ^ 52) * pow2 (exponent x - 52) = pow2 (exponent x)"
      using pow2_add [of 52 "exponent x - 52"] by (simp add: pow2_def)
    then have "pow2 (exponent x) \<le> round64 x"
      using round64_grid_ge [OF xpos, of "2 ^ 52"] eb(1) e by simp
    moreover have "pow2 (k + 53) \<le> pow2 (exponent x)" using gt by (rule pow2_mono)
    ultimately show ?thesis using c_hi by linarith
  qed
qed

lemma MIN_EASE_value: "MIN_EASE = 5854679515581645 / 4503599627370496"
  unfolding MIN_EASE_def by code_simp

lemma round64_ge_MIN_EASE: "MIN_EASE \<le> x \<Longrightarrow> MIN_EASE \<le> round64 x"
  using round64_ge_double [of 5854679515581645 "- 52" x]
  by (simp add: MIN_EASE_value pow2_def)

lemma round64_int:
  assumes "\<bar>n\<bar> \<le> 2 ^ 53"
  shows "round64 (of_int n) = of_int n"
proof (cases "n = 0")
  case True
  then show ?thesis by (simp add: round64_def)
next
  case False
  let ?a = "\<bar>n\<bar>"
  let ?e = "bitlen ?a - 1"
  have a: "0 < ?a" using False by simp
  have b: "2 ^ nat ?e \<le> ?a" "?a < 2 ^ nat (bitlen ?a)"
    using bitlen_bounds [OF a] by simp_all
  have bl: "1 \<le> bitlen ?a" using a by (simp add: bitlen_alt_def)
  have ex: "exponent \<bar>real_of_int n\<bar> = ?e"
  proof -
    have "\<bar>real_of_int n\<bar> = of_int ?a" by simp
    moreover have "1 \<le> real_of_int ?a" using a by linarith
    ultimately show ?thesis by (simp only: exponent_def floor_of_int if_True)
  qed
  have p: "(2::int) ^ nat ?e \<le> 2 ^ 53" using b(1) assms by linarith
  have e53: "nat ?e \<le> 53" by (rule power_le_imp_le_exp [OF _ p]) simp
  show ?thesis
  proof (cases "nat ?e \<le> 52")
    case True
    define j where "j = 52 - nat ?e"
    have u: "pow2 (max ?e (- 1022) - 52) = 1 / 2 ^ j"
    proof -
      have "max ?e (- 1022) - 52 = - int j" using True bl by (simp add: j_def)
      then show ?thesis by (simp add: pow2_def)
    qed
    have q: "real_of_int n / (1 / 2 ^ j) = of_int (n * 2 ^ j)" by simp
    have "round64 (of_int n) = of_int (round_half_even (of_int (n * 2 ^ j))) * (1 / 2 ^ j)"
      using False by (simp only: round64_def Let_def ex u q of_int_eq_0_iff if_False)
    also have "\<dots> = of_int n" by (simp only: round_half_even_int) simp
    finally show ?thesis .
  next
    case False
    then have "nat ?e = 53" using e53 by simp
    then have "2 ^ 53 \<le> ?a" using b(1) by simp
    then have "?a = 2 ^ 53" using assms by simp
    then have "n = 2 ^ 53 \<or> n = - (2 ^ 53)" by linarith
    moreover have "round64 (of_int (2 ^ 53)) = of_int (2 ^ 53)" by code_simp
    moreover have "round64 (of_int (- (2 ^ 53))) = of_int (- (2 ^ 53))" by code_simp
    ultimately show ?thesis by auto
  qed
qed

text \<open>The rounded value is within half a spacing of the exact one.\<close>

lemma round_half_even_error: "\<bar>of_int (round_half_even q) - q\<bar> \<le> 1 / 2"
proof -
  have "of_int \<lfloor>q\<rfloor> \<le> q" "q < of_int \<lfloor>q\<rfloor> + 1" by linarith+
  then show ?thesis by (auto simp add: round_half_even_def Let_def)
qed

lemma round64_error:
  assumes "x \<noteq> 0"
  shows "\<bar>round64 x - x\<bar> \<le> pow2 (max (exponent \<bar>x\<bar>) (- 1022) - 52) / 2"
proof -
  let ?u = "pow2 (max (exponent \<bar>x\<bar>) (- 1022) - 52)"
  have u: "0 < ?u" by (rule pow2_pos)
  have "round64 x - x = (of_int (round_half_even (x / ?u)) - x / ?u) * ?u"
    using assms u by (simp add: round64_def Let_def field_simps)
  then have "\<bar>round64 x - x\<bar> = \<bar>of_int (round_half_even (x / ?u)) - x / ?u\<bar> * ?u"
    using u by (simp add: abs_mult)
  also have "\<dots> \<le> 1 / 2 * ?u"
    using round_half_even_error [of "x / ?u"] u by (intro mult_right_mono) simp_all
  finally show ?thesis by simp
qed

text \<open>
  A binary64 value, \<open>m * 2\<^sup>k\<close> with a significand of at most 53 bits and an exponent not
  below the smallest, is its own rounding.
\<close>

lemma round64_double:
  assumes m: "\<bar>m\<bar> < 2 ^ 53" and k: "- 1074 \<le> k"
  shows "round64 (of_int m * pow2 k) = of_int m * pow2 k"
proof (cases "m = 0")
  case True
  then show ?thesis by (simp add: round64_def)
next
  case False
  let ?x = "of_int m * pow2 k"
  have x0: "?x \<noteq> 0" using False pow2_pos [of k] by simp
  have ax: "\<bar>?x\<bar> = of_int \<bar>m\<bar> * pow2 k" using pow2_pos [of k] by (simp add: abs_mult)
  have apos: "0 < \<bar>?x\<bar>" using x0 by simp
  let ?e = "exponent \<bar>?x\<bar>"
  have "real_of_int \<bar>m\<bar> < 2 ^ 53"
    using m by (metis of_int_less_iff of_int_numeral of_int_power)
  then have "\<bar>?x\<bar> < pow2 53 * pow2 k"
    unfolding ax using pow2_pos [of k] by (simp add: pow2_def)
  then have "pow2 ?e < pow2 (53 + k)"
    using exponent_bounds [OF apos] by (simp add: pow2_add)
  then have e: "?e < 53 + k" by (rule pow2_less_cancel)
  define j where "j = max ?e (- 1022) - 52"
  have jk: "j \<le> k" using e k by (simp add: j_def)
  then obtain d where d: "k = j + int d" by (metis zle_iff_zadd)
  have pk: "pow2 k = 2 ^ d * pow2 j" by (simp add: d pow2_add pow2_nat)
  have q: "?x / pow2 j = of_int (m * 2 ^ d)"
    using pow2_pos [of j] by (simp add: pk)
  have "round64 ?x = of_int (round_half_even (?x / pow2 j)) * pow2 j"
    using x0 by (simp only: round64_def Let_def j_def if_False)
  also have "\<dots> = of_int (m * 2 ^ d) * pow2 j"
    by (simp only: q round_half_even_int)
  also have "\<dots> = ?x" by (simp add: pk)
  finally show ?thesis .
qed

text \<open>Sums and products of integers are exact while they stay within \<open>2\<^sup>5\<^sup>3\<close>.\<close>

lemma fadd_int: "\<bar>a + b\<bar> \<le> 2 ^ 53 \<Longrightarrow> fadd (of_int a) (of_int b) = of_int (a + b)"
  using round64_int [of "a + b"] by (simp add: fadd_def)

lemma fmul_int: "\<bar>a * b\<bar> \<le> 2 ^ 53 \<Longrightarrow> fmul (of_int a) (of_int b) = of_int (a * b)"
  using round64_int [of "a * b"] by (simp add: fmul_def)

lemma ten_minutes: "fmul (fmul 10 60) 1000 = 600000"
  using fmul_int [of 10 60] fmul_int [of 600 1000] by simp

lemma six_hours: "fmul (fmul (fmul 6 60) 60) 1000 = 21600000"
  using fmul_int [of 6 60] fmul_int [of 360 60] fmul_int [of 21600 1000] by simp

lemma literal_005: "round64 0.05 = 3602879701896397 / 72057594037927936"
  by code_simp

section \<open>Properties of the scheduler\<close>

lemmas reviewCard_unfold =
  reviewCard_def hydrate_def present_def nullish_def Let_def
  addMinutes_def addHours_def addDays_def



text \<open>
  C2. Grading a fully populated card "again" at \<open>now\<close> adds exactly 1 to \<open>lapses\<close>, sets
  \<open>reps\<close> and \<open>intervalDays\<close> to 0, \<open>ease\<close> to the larger of 1.3 and the old \<open>ease\<close> minus
  0.2, \<open>state\<close> to "learning" and \<open>due\<close> to \<open>now\<close> plus 600000 milliseconds; every other
  property of the card is unchanged. The sum and the difference are those of binary64
  arithmetic, and 1.3 and 0.2 are the binary64 values nearest to them.
\<close>

theorem reviewCard_again:
  "reviewCard (present s) (JSString ''again'') now =
     s\<lparr>lapses := fadd (lapses s) 1,
       reps := 0,
       intervalDays := 0,
       ease := max (round64 1.3) (fsub (ease s) (round64 0.2)),
       state := ''learning'',
       due := fadd now 600000\<rparr>
   \<and> card.more (reviewCard (present s) (JSString ''again'') now) = card.more s"
  by (simp add: reviewCard_unfold ten_minutes MIN_EASE_def)

text \<open>
  A fresh card graded "again" once holds the ease 2.3 (the binary64 value
  2.29999999999999982); graded "again" once more it holds 2.0999999999999996.
\<close>

theorem reviewCard_again_witness:
  "reviewCard
     (present \<lparr>ease = 2589569785738035 / 1125899906842624, intervalDays = 0, reps = 0,
               lapses = 1, state = ''learning'', due = 600000\<rparr>)
     (JSString ''again'') 600000
   = \<lparr>ease = 1182194902184755 / 562949953421312, intervalDays = 0, reps = 0, lapses = 2,
      state = ''learning'', due = 1200000\<rparr>"
proof -
  let ?s = "\<lparr>ease = 2589569785738035 / 1125899906842624, intervalDays = 0, reps = 0,
               lapses = 1, state = ''learning'', due = 600000\<rparr> :: (real, string) card"
  have "reviewCard (present ?s) (JSString ''again'') 600000 =
     ?s\<lparr>lapses := fadd (lapses ?s) 1,
       reps := 0,
       intervalDays := 0,
       ease := max (round64 1.3) (fsub (ease ?s) (round64 0.2)),
       state := ''learning'',
       due := fadd 600000 600000\<rparr>"
    using reviewCard_again [of ?s 600000] by (rule conjunct1)
  also have "\<dots> = \<lparr>ease = 1182194902184755 / 562949953421312, intervalDays = 0, reps = 0,
      lapses = 2, state = ''learning'', due = 1200000\<rparr>"
    by code_simp
  finally show ?thesis .
qed

text \<open>
  C7. Grading a fully populated card "learning" at \<open>now\<close> sets \<open>state\<close> to "learning",
  \<open>reps\<close> to the smaller of the old \<open>reps\<close> plus 1 and 2, and \<open>due\<close> to \<open>now\<close> plus six
  hours; \<open>ease\<close>, \<open>intervalDays\<close>, \<open>lapses\<close> and every other property are unchanged. The
  two sums are those of binary64 arithmetic; they are the exact sums when \<open>reps\<close> and
  \<open>now\<close> are integers and the sums stay within \<open>2\<^sup>5\<^sup>3\<close>.
\<close>

theorem reviewCard_learning:
  "reviewCard (present s) (JSString ''learning'') now =
     s\<lparr>state := ''learning'',
       reps := min (fadd (reps s) 1) 2,
       due := fadd now 21600000\<rparr>
   \<and> ease (reviewCard (present s) (JSString ''learning'') now) = ease s
   \<and> intervalDays (reviewCard (present s) (JSString ''learning'') now) = intervalDays s
   \<and> lapses (reviewCard (present s) (JSString ''learning'') now) = lapses s
   \<and> card.more (reviewCard (present s) (JSString ''learning'') now) = card.more s
   \<and> (reps s = of_int r \<and> \<bar>r + 1\<bar> \<le> 2 ^ 53 \<and> now = of_int t \<and> \<bar>t + 21600000\<bar> \<le> 2 ^ 53 \<longrightarrow>
        reviewCard (present s) (JSString ''learning'') now =
          s\<lparr>state := ''learning'',
            reps := min (reps s + 1) 2,
            due := now + 6 * 60 * 60 * 1000\<rparr>)"
  using fadd_int [of r 1] fadd_int [of t 21600000]
  by (simp add: reviewCard_unfold six_hours)

theorem reviewCard_learning_witness:
  "(2 :: real) = of_int 2 \<and> \<bar>(2 :: int) + 1\<bar> \<le> 2 ^ 53
   \<and> (600000 :: real) = of_int 600000 \<and> \<bar>(600000 :: int) + 21600000\<bar> \<le> 2 ^ 53
   \<and> reviewCard
       (present \<lparr>ease = 2589569785738035 / 1125899906842624, intervalDays = 0, reps = 2,
                 lapses = 1, state = ''learning'', due = 600000\<rparr>)
       (JSString ''learning'') 600000
     = \<lparr>ease = 2589569785738035 / 1125899906842624, intervalDays = 0, reps = 2, lapses = 1,
        state = ''learning'', due = 22200000\<rparr>"
proof -
  let ?s = "\<lparr>ease = 2589569785738035 / 1125899906842624, intervalDays = 0, reps = 2,
               lapses = 1, state = ''learning'', due = 600000\<rparr> :: (real, string) card"
  have h: "reps ?s = of_int 2 \<and> \<bar>(2 :: int) + 1\<bar> \<le> 2 ^ 53
      \<and> (600000 :: real) = of_int 600000 \<and> \<bar>(600000 :: int) + 21600000\<bar> \<le> 2 ^ 53"
    by simp
  have "reviewCard (present ?s) (JSString ''learning'') 600000 =
      ?s\<lparr>state := ''learning'', reps := min (reps ?s + 1) 2,
         due := 600000 + 6 * 60 * 60 * 1000\<rparr>"
    using reviewCard_learning [where s = ?s and now = 600000 and r = 2 and t = 600000] h
    by blast
  then show ?thesis by simp
qed

text \<open>
  C8. For every action and every \<open>now\<close>, a card in which any of the six scheduling
  properties is absent is graded exactly as the same card with each absent property
  replaced by its default: \<open>ease\<close> 2.5, \<open>intervalDays\<close> 0, \<open>reps\<close> 0, \<open>lapses\<close> 0, \<open>state\<close>
  "new" and \<open>due\<close> the timestamp \<open>now\<close>. In particular a card with none of them is graded
  as a freshly created card.
\<close>

theorem reviewCard_defaults:
  "reviewCard c action now =
     reviewCard
       \<lparr> ease = Some (case ease c of None \<Rightarrow> 2.5 | Some v \<Rightarrow> v),
         intervalDays = Some (case intervalDays c of None \<Rightarrow> 0 | Some v \<Rightarrow> v),
         reps = Some (case reps c of None \<Rightarrow> 0 | Some v \<Rightarrow> v),
         lapses = Some (case lapses c of None \<Rightarrow> 0 | Some v \<Rightarrow> v),
         state = Some (case state c of None \<Rightarrow> ''new'' | Some v \<Rightarrow> v),
         due = Some (case due c of None \<Rightarrow> now | Some v \<Rightarrow> v),
         \<dots> = card.more c \<rparr>
       action now
   \<and> reviewCard
       \<lparr> ease = None, intervalDays = None, reps = None, lapses = None, state = None,
         due = None, \<dots> = x \<rparr>
       action now
     = reviewCard
       \<lparr> ease = Some 2.5, intervalDays = Some 0, reps = Some 0, lapses = Some 0,
         state = Some ''new'', due = Some now, \<dots> = x \<rparr>
       action now"
  by (cases "ease c"; cases "intervalDays c"; cases "reps c"; cases "lapses c";
      cases "state c"; cases "due c") (simp_all add: reviewCard_unfold)

theorem reviewCard_defaults_witness:
  "reviewCard
     \<lparr> ease = None, intervalDays = Some 1, reps = None, lapses = None, state = None,
       due = None \<rparr>
     (JSString ''known'') 1000
   = \<lparr> ease = 2871044762448691 / 1125899906842624, intervalDays = 3, reps = 1, lapses = 0,
       state = ''known'', due = 259201000 \<rparr>"
proof -
  let ?c = "\<lparr> ease = None, intervalDays = Some 1, reps = None, lapses = None, state = None,
       due = None \<rparr> :: (real option, string option) card"
  have "reviewCard ?c (JSString ''known'') 1000 =
     reviewCard
       \<lparr> ease = Some (case ease ?c of None \<Rightarrow> 2.5 | Some v \<Rightarrow> v),
         intervalDays = Some (case intervalDays ?c of None \<Rightarrow> 0 | Some v \<Rightarrow> v),
         reps = Some (case reps ?c of None \<Rightarrow> 0 | Some v \<Rightarrow> v),
         lapses = Some (case lapses ?c of None \<Rightarrow> 0 | Some v \<Rightarrow> v),
         state = Some (case state ?c of None \<Rightarrow> ''new'' | Some v \<Rightarrow> v),
         due = Some (case due ?c of None \<Rightarrow> 1000 | Some v \<Rightarrow> v),
         \<dots> = card.more ?c \<rparr>
       (JSString ''known'') 1000"
    using reviewCard_defaults [of ?c "JSString ''known''" 1000] by (rule conjunct1)
  also have "\<dots> = \<lparr> ease = 2871044762448691 / 1125899906842624, intervalDays = 3, reps = 1,
       lapses = 0, state = ''known'', due = 259201000 \<rparr>"
    by code_simp
  finally show ?thesis .
qed

text \<open>
  C6. An action that is none of "again", "learning" and "known" is not rejected: the card
  is graded as by "known".
\<close>

theorem reviewCard_unrecognized:
  "action \<noteq> JSString ''again'' \<Longrightarrow> action \<noteq> JSString ''learning'' \<Longrightarrow>
   action \<noteq> JSString ''known'' \<Longrightarrow>
   reviewCard c action now = reviewCard c (JSString ''known'') now"
  by (simp add: reviewCard_def)

theorem reviewCard_unrecognized_witness:
  "JSString ''easy'' \<noteq> JSString ''again'' \<and> JSString ''easy'' \<noteq> JSString ''learning'' \<and>
   JSString ''easy'' \<noteq> JSString ''known'' \<and>
   reviewCard
     \<lparr> ease = Some 2.5, intervalDays = Some 0, reps = Some 0, lapses = Some 0,
       state = Some ''new'', due = Some 0 \<rparr>
     (JSString ''easy'') 0
   = \<lparr> ease = 2871044762448691 / 1125899906842624, intervalDays = 1, reps = 1, lapses = 0,
       state = ''known'', due = 86400000 \<rparr>"
proof -
  let ?c = "\<lparr> ease = Some 2.5, intervalDays = Some 0, reps = Some 0, lapses = Some 0,
       state = Some ''new'', due = Some 0 \<rparr> :: (real option, string option) card"
  have h: "JSString ''easy'' \<noteq> JSString ''again''" "JSString ''easy'' \<noteq> JSString ''learning''"
    "JSString ''easy'' \<noteq> JSString ''known''"
    by simp_all
  have "reviewCard ?c (JSString ''easy'') 0 = reviewCard ?c (JSString ''known'') 0"
    using h by (rule reviewCard_unrecognized)
  also have "\<dots> = \<lparr> ease = 2871044762448691 / 1125899906842624, intervalDays = 1, reps = 1,
       lapses = 0, state = ''known'', due = 86400000 \<rparr>"
    by code_simp
  finally show ?thesis using h by simp
qed

text \<open>
  C9. A card that carries a \<open>due\<close> timestamp is due at \<open>now\<close> exactly when that timestamp
  is at most \<open>now\<close>.
\<close>

theorem isDue_iff:
  "due c = Some t \<Longrightarrow> isDue c now \<longleftrightarrow> t \<le> now"
  by (simp add: isDue_def nullish_def)

theorem isDue_iff_witness:
  "due \<lparr> ease = None, intervalDays = None, reps = None, lapses = None, state = None,
         due = Some 600000 \<rparr> = Some 600000
   \<and> isDue \<lparr> ease = None, intervalDays = None, reps = None, lapses = None, state = None,
             due = Some 600000 \<rparr> 600000
   \<and> \<not> isDue \<lparr> ease = None, intervalDays = None, reps = None, lapses = None, state = None,
               due = Some 600000 \<rparr> 599999"
  using
    isDue_iff [of "\<lparr> ease = None, intervalDays = None, reps = None, lapses = None,
                    state = None, due = Some 600000 \<rparr>" 600000 600000]
    isDue_iff [of "\<lparr> ease = None, intervalDays = None, reps = None, lapses = None,
                    state = None, due = Some 600000 \<rparr>" 600000 599999]
  by simp

subsection \<open>The floor of the ease factor\<close>

text \<open>
  The floor \<^verbatim>\<open>MIN_EASE\<close> is the binary64 value 1.3000000000000000444, just above 13/10.
  \<^verbatim>\<open>Math.max\<close> never goes below it, and a sum that has reached it is not rounded below
  it.
\<close>

lemma MIN_EASE_ge: "1.3 \<le> MIN_EASE"
  by (simp add: MIN_EASE_value)

lemma known_keeps_floor:
  assumes "1.3 \<le> e"
  shows "MIN_EASE \<le> fadd e (round64 0.05)"
proof -
  have "MIN_EASE \<le> e + round64 0.05"
    unfolding MIN_EASE_value literal_005 using assms by simp
  then show ?thesis unfolding fadd_def by (rule round64_ge_MIN_EASE)
qed

lemma reviewCard_keeps_floor:
  "1.3 \<le> ease s \<Longrightarrow> 1.3 \<le> ease (reviewCard (present s) action now)"
  using known_keeps_floor [of "ease s"] MIN_EASE_ge
  by (auto simp add: reviewCard_unfold max_def)

lemma again_reaches_floor:
  "1.3 \<le> ease (reviewCard c (JSString ''again'') now)"
  using MIN_EASE_ge by (auto simp add: reviewCard_unfold max_def)

lemma grade_all_keeps_floor:
  "1.3 \<le> ease s \<Longrightarrow> 1.3 \<le> ease (grade_all s gs)"
proof (induction s gs rule: grade_all.induct)
  case (1 s)
  then show ?case by simp
next
  case (2 s action now gs)
  have "1.3 \<le> ease (reviewCard (present s) action now)"
    using "2.prems" by (rule reviewCard_keeps_floor)
  then have "1.3 \<le> ease (grade_all (reviewCard (present s) action now) gs)"
    by (rule "2.IH")
  then show ?case by simp
qed

text \<open>
  C3. After one "again" grade of any card, followed by any number of further "again"
  grades at any timestamps, \<open>ease\<close> is at least 1.3. And from a state whose \<open>ease\<close> is at
  least 1.3, one grading with any action at any timestamp, and hence any run of gradings,
  gives a state whose \<open>ease\<close> is at least 1.3.
\<close>

theorem ease_floor:
  "1.3 \<le> ease (grade_all (reviewCard c (JSString ''again'') now)
                 (map (\<lambda>t. (JSString ''again'', t)) nows))
   \<and> (1.3 \<le> ease s \<longrightarrow>
        1.3 \<le> ease (reviewCard (present s) action t) \<and> 1.3 \<le> ease (grade_all s gs))"
  using grade_all_keeps_floor [OF again_reaches_floor]
    reviewCard_keeps_floor [of s action t] grade_all_keeps_floor [of s gs]
  by simp

theorem ease_floor_witness:
  "(1.3 :: real) \<le> 5854679515581645 / 4503599627370496
   \<and> 1.3 \<le> ease (reviewCard
       (present \<lparr>ease = 5854679515581645 / 4503599627370496, intervalDays = 3, reps = 2,
                 lapses = 4, state = ''known'', due = 0\<rparr>)
       (JSString ''again'') 0)
   \<and> 1.3 \<le> ease (grade_all
       \<lparr>ease = 5854679515581645 / 4503599627370496, intervalDays = 3, reps = 2, lapses = 4,
         state = ''known'', due = 0\<rparr>
       [(JSString ''again'', 0), (JSString ''known'', 600000), (JSString ''learning'', 700000)])"
  using ease_floor
    [where c = "\<lparr>ease = None, intervalDays = None, reps = None, lapses = None,
                  state = None, due = None\<rparr>" and now = 0 and nows = "[]"
       and s = "\<lparr>ease = 5854679515581645 / 4503599627370496, intervalDays = 3, reps = 2,
                  lapses = 4, state = ''known'', due = 0\<rparr>"
       and action = "JSString ''again''" and t = 0
       and gs = "[(JSString ''again'', 0), (JSString ''known'', 600000),
                  (JSString ''learning'', 700000)]"]
  by simp

section \<open>Properties of the matcher\<close>

subsection \<open>The table loops compute the recurrence\<close>

text \<open>The loop equations are unfolded one step at a time, where a proof asks for it.\<close>

declare loop_col.simps [simp del] loop_row.simps [simp del]
  loop_j.simps [simp del] loop_i.simps [simp del]

lemma table_replicate: "table n m (replicate (n + 1) (replicate (m + 1) 0))"
  unfolding table_def by (simp del: replicate.simps)

lemma table_set2: "table n m dp \<Longrightarrow> i \<le> n \<Longrightarrow> table n m (set2 dp i j v)"
  by (auto simp add: table_def set2_def nth_list_update)

lemma get2_set2:
  "table n m dp \<Longrightarrow> i \<le> n \<Longrightarrow> j \<le> m \<Longrightarrow> i' \<le> n \<Longrightarrow>
   get2 (set2 dp i j v) i' j' = (if i' = i \<and> j' = j then v else get2 dp i' j')"
  by (auto simp add: table_def get2_def set2_def nth_list_update)

lemma loop_col_correct:
  "table n m dp \<Longrightarrow> \<forall>i'<i. get2 dp i' 0 = i' \<Longrightarrow>
   table n m (loop_col n i dp) \<and> (\<forall>i'\<le>n. get2 (loop_col n i dp) i' 0 = i')"
proof (induction n i dp rule: loop_col.induct)
  case (1 n i dp)
  show ?case
  proof (cases "i \<le> n")
    case True
    have t: "table n m (set2 dp i 0 i)"
      using "1.prems"(1) True by (rule table_set2)
    have c: "\<forall>i'<i + 1. get2 (set2 dp i 0 i) i' 0 = i'"
      using "1.prems" True by (simp add: get2_set2 less_Suc_eq)
    show ?thesis
      using "1.IH" [OF True t c] True by (simp add: loop_col.simps [of n i dp])
  next
    case False
    then show ?thesis using "1.prems" by (simp add: loop_col.simps [of n i dp])
  qed
qed

lemma loop_row_correct:
  "table n m dp \<Longrightarrow> \<forall>i'\<le>n. get2 dp i' 0 = i' \<Longrightarrow> \<forall>j'<j. get2 dp 0 j' = j' \<Longrightarrow>
   table n m (loop_row m j dp) \<and> (\<forall>i'\<le>n. get2 (loop_row m j dp) i' 0 = i')
     \<and> (\<forall>j'\<le>m. get2 (loop_row m j dp) 0 j' = j')"
proof (induction m j dp rule: loop_row.induct)
  case (1 m j dp)
  show ?case
  proof (cases "j \<le> m")
    case True
    have t: "table n m (set2 dp 0 j j)"
      using "1.prems"(1) by (simp add: table_set2)
    have c: "\<forall>i'\<le>n. get2 (set2 dp 0 j j) i' 0 = i'"
      using "1.prems" True by (simp add: get2_set2)
    have r: "\<forall>j'<j + 1. get2 (set2 dp 0 j j) 0 j' = j'"
      using "1.prems" True by (simp add: get2_set2 less_Suc_eq)
    show ?thesis
      using "1.IH" [OF True t c r] True by (simp add: loop_row.simps [of m j dp])
  next
    case False
    then show ?thesis using "1.prems" by (simp add: loop_row.simps [of m j dp])
  qed
qed

lemma loop_j_correct:
  "filled s t n m i j dp \<Longrightarrow> 1 \<le> i \<Longrightarrow> i \<le> n \<Longrightarrow> 1 \<le> j \<Longrightarrow>
   filled s t n m (i + 1) 1 (loop_j s t m i j dp)"
proof (induction s t m i j dp rule: loop_j.induct)
  case (1 s t m i j dp)
  show ?case
  proof (cases "j \<le> m")
    case True
    define v where "v = min (get2 dp (i - 1) j + 1)
                      (min (get2 dp i (j - 1) + 1)
                        (get2 dp (i - 1) (j - 1) + (if s ! (i - 1) = t ! (j - 1) then 0 else 1)))"
    obtain i0 j0 where ij: "i = Suc i0" "j = Suc j0"
      using "1.prems" by (cases i; cases j) auto
    have tab: "table n m dp" using "1.prems"(1) by (simp add: filled_def)
    have cells: "\<And>i' j'. i' \<le> n \<Longrightarrow> j' \<le> m \<Longrightarrow> i' = 0 \<or> j' = 0 \<or> i' < i \<or> (i' = i \<and> j' < j)
        \<Longrightarrow> get2 dp i' j' = recurrence s t i' j'"
      using "1.prems"(1) unfolding filled_def by blast
    have a: "get2 dp i0 (Suc j0) = recurrence s t i0 (Suc j0)"
      using cells [of i0 "Suc j0"] ij "1.prems" True by simp
    have b: "get2 dp (Suc i0) j0 = recurrence s t (Suc i0) j0"
      using cells [of "Suc i0" j0] ij "1.prems" True by simp
    have c: "get2 dp i0 j0 = recurrence s t i0 j0"
      using cells [of i0 j0] ij "1.prems" True by simp
    have v: "v = recurrence s t i j"
      unfolding v_def using a b c ij by simp
    have f: "filled s t n m i (j + 1) (set2 dp i j v)"
      unfolding filled_def
    proof (intro conjI allI impI)
      show "table n m (set2 dp i j v)" using tab "1.prems" by (simp add: table_set2)
    next
      fix i' j'
      assume h: "i' \<le> n" "j' \<le> m" "i' = 0 \<or> j' = 0 \<or> i' < i \<or> i' = i \<and> j' < j + 1"
      show "get2 (set2 dp i j v) i' j' = recurrence s t i' j'"
      proof (cases "i' = i \<and> j' = j")
        case True
        then show ?thesis using tab "1.prems" \<open>j \<le> m\<close> v by (simp add: get2_set2)
      next
        case False
        then have "i' = 0 \<or> j' = 0 \<or> i' < i \<or> (i' = i \<and> j' < j)" using h by auto
        then have "get2 dp i' j' = recurrence s t i' j'" using cells h by blast
        then show ?thesis using False tab "1.prems" \<open>j \<le> m\<close> h by (auto simp add: get2_set2)
      qed
    qed
    have "filled s t n m (i + 1) 1 (loop_j s t m i (j + 1) (set2 dp i j v))"
      using "1.IH" [OF True refl refl f [unfolded v_def]] "1.prems" unfolding v_def by simp
    then show ?thesis
      using True unfolding v_def by (simp add: loop_j.simps [of s t m i j dp] Let_def)
  next
    case False
    have "filled s t n m (i + 1) 1 dp"
      unfolding filled_def
    proof (intro conjI allI impI)
      show "table n m dp" using "1.prems"(1) by (simp add: filled_def)
    next
      fix i' j'
      assume h: "i' \<le> n" "j' \<le> m" "i' = 0 \<or> j' = 0 \<or> i' < i + 1 \<or> i' = i + 1 \<and> j' < 1"
      then have "i' = 0 \<or> j' = 0 \<or> i' < i \<or> (i' = i \<and> j' < j)"
        using False by auto
      then show "get2 dp i' j' = recurrence s t i' j'"
        using "1.prems"(1) h unfolding filled_def by blast
    qed
    then show ?thesis using False by (simp add: loop_j.simps [of s t m i j dp])
  qed
qed

lemma loop_i_correct:
  "filled s t n m i 1 dp \<Longrightarrow> 1 \<le> i \<Longrightarrow> i \<le> n + 1 \<Longrightarrow>
   filled s t n m (n + 1) 1 (loop_i s t n m i dp)"
proof (induction s t n m i dp rule: loop_i.induct)
  case (1 s t n m i dp)
  show ?case
  proof (cases "i \<le> n")
    case True
    have "filled s t n m (i + 1) 1 (loop_j s t m i 1 dp)"
      by (rule loop_j_correct) (use "1.prems" True in simp_all)
    then have "filled s t n m (n + 1) 1 (loop_i s t n m (i + 1) (loop_j s t m i 1 dp))"
      using "1.IH" [OF True] True by simp
    then show ?thesis using True by (simp add: loop_i.simps [of s t n m i dp])
  next
    case False
    then have "i = n + 1" using "1.prems" by simp
    then have "filled s t n m (n + 1) 1 dp" using "1.prems"(1) by simp
    then show ?thesis using False by (simp add: loop_i.simps [of s t n m i dp])
  qed
qed

lemma recurrence_empty_right: "recurrence s t i 0 = i"
  by (cases i) simp_all

lemma table_dp:
  "get2 (loop_i s t n m 1 (loop_row m 0 (loop_col n 0 (replicate (n + 1) (replicate (m + 1) 0))))) n m
   = recurrence s t n m"
proof -
  let ?d0 = "replicate (n + 1) (replicate (m + 1) (0::nat))"
  let ?d1 = "loop_col n 0 ?d0"
  let ?d2 = "loop_row m 0 ?d1"
  have 1: "table n m ?d1 \<and> (\<forall>i'\<le>n. get2 ?d1 i' 0 = i')"
    by (rule loop_col_correct [OF table_replicate]) simp
  have 2: "table n m ?d2 \<and> (\<forall>i'\<le>n. get2 ?d2 i' 0 = i') \<and> (\<forall>j'\<le>m. get2 ?d2 0 j' = j')"
    using 1 by (intro loop_row_correct) simp_all
  have "filled s t n m 1 1 ?d2"
    unfolding filled_def using 2 by (auto simp add: recurrence_empty_right)
  then have "filled s t n m (n + 1) 1 (loop_i s t n m 1 ?d2)"
    by (rule loop_i_correct) simp_all
  then show ?thesis
    unfolding filled_def by auto
qed

lemma levenshtein_recurrence:
  "levenshtein lc a b = distance (normalizeAnswer lc a) (normalizeAnswer lc b)"
proof -
  let ?s = "normalizeAnswer lc a" and ?t = "normalizeAnswer lc b"
  show ?thesis
  proof (cases "length ?s = 0 \<or> length ?t = 0")
    case True
    then show ?thesis
      by (auto simp add: levenshtein_def distance_def Let_def recurrence_empty_right)
  next
    case False
    then show ?thesis
      unfolding levenshtein_def distance_def Let_def table_dp by simp
  qed
qed

subsection \<open>The recurrence is the least number of edits\<close>

lemma lev_Nil2: "lev xs [] = length xs"
  by (cases xs) simp_all

lemma recurrence_lev:
  "i \<le> length s \<Longrightarrow> j \<le> length t \<Longrightarrow> recurrence s t i j = lev (rev (take i s)) (rev (take j t))"
proof (induction s t i j rule: recurrence.induct)
  case (1 s t j)
  then show ?case by simp
next
  case (2 s t i)
  then show ?case by (simp add: lev_Nil2)
next
  case (3 s t i j)
  then show ?case
    by (simp add: take_Suc_conv_app_nth)
qed

lemma distance_lev: "distance s t = lev (rev s) (rev t)"
  by (simp add: distance_def recurrence_lev)

lemma edits_step: "edit_step xs ys \<Longrightarrow> edits 1 xs ys"
  by auto

lemma edits_trans: "edits k xs ys \<Longrightarrow> edits l ys zs \<Longrightarrow> edits (k + l) xs zs"
  by (induction k arbitrary: xs) auto

lemma edit_step_Cons: "edit_step xs ys \<Longrightarrow> edit_step (a # xs) (a # ys)"
proof (induction rule: edit_step.induct)
  case (insertion u v c)
  show ?case using edit_step.insertion [of "a # u" v c] by simp
next
  case (deletion u c v)
  show ?case using edit_step.deletion [of "a # u" c v] by simp
next
  case (substitution u c v d)
  show ?case using edit_step.substitution [of "a # u" c v d] by simp
qed

lemma edit_step_rev: "edit_step xs ys \<Longrightarrow> edit_step (rev xs) (rev ys)"
proof (induction rule: edit_step.induct)
  case (insertion u v c)
  show ?case using edit_step.insertion [of "rev v" "rev u" c] by simp
next
  case (deletion u c v)
  show ?case using edit_step.deletion [of "rev v" c "rev u"] by simp
next
  case (substitution u c v d)
  show ?case using edit_step.substitution [of "rev v" c "rev u" d] by simp
qed

lemma edits_Cons: "edits k xs ys \<Longrightarrow> edits k (a # xs) (a # ys)"
  by (induction k arbitrary: xs) (auto intro: edit_step_Cons)

lemma edits_rev: "edits k xs ys \<Longrightarrow> edits k (rev xs) (rev ys)"
  by (induction k arbitrary: xs) (auto intro: edit_step_rev)

lemma edits_delete_head: "edits 1 (x # xs) xs"
  using edit_step.deletion [of "[]" x xs] by (intro edits_step) simp

lemma edits_insert_head: "edits 1 ys (y # ys)"
  using edit_step.insertion [of "[]" ys y] by (intro edits_step) simp

lemma edits_subst_head: "edits 1 (x # xs) (y # xs)"
  using edit_step.substitution [of "[]" x xs y] by (intro edits_step) simp

lemma edits_insert_all: "edits (length ys) [] ys"
proof (induction ys)
  case Nil
  show ?case by simp
next
  case (Cons y ys)
  have "edits (1 + length ys) [] (y # ys)"
    using edits_insert_head [of "[]" y] edits_Cons [OF Cons.IH, of y] by (rule edits_trans)
  then show ?case by simp
qed

lemma edits_delete_all: "edits (length xs) xs []"
proof (induction xs)
  case Nil
  show ?case by simp
next
  case (Cons x xs)
  have "edits (1 + length xs) (x # xs) []"
    using edits_delete_head Cons.IH by (rule edits_trans)
  then show ?case by simp
qed

lemma min3_cases: "P a \<Longrightarrow> P b \<Longrightarrow> P c \<Longrightarrow> P (min a (min b (c::nat)))"
  by (simp add: min_def)

lemma edits_lev: "edits (lev xs ys) xs ys"
proof (induction xs ys rule: lev.induct)
  case (1 ys)
  show ?case using edits_insert_all [of ys] by simp
next
  case (2 x xs)
  show ?case using edits_delete_all [of "x # xs"] by simp
next
  case (3 x xs y ys)
  have del: "edits (lev xs (y # ys) + 1) (x # xs) (y # ys)"
    using edits_trans [OF edits_delete_head "3.IH"(1)] by (simp add: add.commute)
  have ins: "edits (lev (x # xs) ys + 1) (x # xs) (y # ys)"
    using edits_trans [OF "3.IH"(2) edits_insert_head] by simp
  have sub: "edits (lev xs ys + (if x \<noteq> y then 1 else 0)) (x # xs) (y # ys)"
  proof (cases "x = y")
    case True
    then show ?thesis using edits_Cons [OF "3.IH"(3), of x] by simp
  next
    case False
    then show ?thesis
      using edits_trans [OF edits_subst_head [of x xs y] edits_Cons [OF "3.IH"(3), of y]]
      by (simp add: add.commute)
  qed
  show ?case
    unfolding lev.simps using del ins sub by (rule min3_cases)
qed

text \<open>No run of edits is shorter: one edit changes the recurrence by at most 1.\<close>

lemma lev_refl: "lev xs xs = 0"
  by (induction xs) simp_all

lemma lev_del: "lev (x # xs) zs \<le> Suc (lev xs zs)"
  by (cases zs) (simp_all add: lev_Nil2)

lemma lev_del2: "lev xs (z # zs) \<le> Suc (lev xs zs)"
  by (cases xs) simp_all

lemma lev_ins: "lev xs zs \<le> Suc (lev (x # xs) zs)"
proof (induction zs arbitrary: x)
  case Nil
  show ?case by (simp add: lev_Nil2)
next
  case (Cons z zs)
  have "lev xs (z # zs) \<le> Suc (lev xs zs)" by (rule lev_del2)
  moreover have "lev xs zs \<le> Suc (lev (x # xs) zs)" by (rule Cons.IH)
  ultimately show ?case unfolding lev.simps by linarith
qed

lemma lev_sub: "lev (x # xs) zs \<le> Suc (lev (y # xs) zs)"
proof (induction zs)
  case Nil
  show ?case by simp
next
  case (Cons z zs)
  have "(if x \<noteq> z then 1 else 0 :: nat) \<le> Suc (if y \<noteq> z then 1 else 0)" by simp
  then show ?case using Cons.IH unfolding lev.simps by linarith
qed

lemma lev_prefix:
  assumes "\<And>zs. lev p zs \<le> Suc (lev q zs)"
  shows "lev (a # p) zs \<le> Suc (lev (a # q) zs)"
proof (induction zs)
  case Nil
  show ?case using assms [of "[]"] by (simp add: lev_Nil2)
next
  case (Cons z zs)
  show ?case using assms [of "z # zs"] assms [of zs] Cons.IH unfolding lev.simps by linarith
qed

lemma lev_append_prefix:
  assumes "\<And>zs. lev p zs \<le> Suc (lev q zs)"
  shows "lev (u @ p) zs \<le> Suc (lev (u @ q) zs)"
proof (induction u arbitrary: zs)
  case Nil
  show ?case using assms by simp
next
  case (Cons a u)
  show ?case using lev_prefix [of "u @ p" "u @ q" a zs] Cons.IH by simp
qed

lemma lev_step: "edit_step xs ys \<Longrightarrow> lev xs zs \<le> Suc (lev ys zs)"
proof (induction rule: edit_step.induct)
  case (insertion u v c)
  show ?case by (rule lev_append_prefix) (rule lev_ins)
next
  case (deletion u c v)
  show ?case by (rule lev_append_prefix) (rule lev_del)
next
  case (substitution u c v d)
  show ?case by (rule lev_append_prefix) (rule lev_sub)
qed

lemma lev_le_edits: "edits k xs ys \<Longrightarrow> lev xs ys \<le> k"
proof (induction k arbitrary: xs)
  case 0
  then show ?case by (simp add: lev_refl)
next
  case (Suc k)
  then obtain zs where z: "edit_step xs zs" "edits k zs ys" by auto
  have "lev xs ys \<le> Suc (lev zs ys)" using z(1) by (rule lev_step)
  moreover have "lev zs ys \<le> k" using z(2) by (rule Suc.IH)
  ultimately show ?case by simp
qed

lemma distance_edits: "edits (distance s t) s t"
  using edits_rev [OF edits_lev [of "rev s" "rev t"]] by (simp add: distance_lev)

lemma distance_least: "edits k s t \<Longrightarrow> distance s t \<le> k"
  using lev_le_edits [OF edits_rev [of k s t]] by (simp add: distance_lev)

subsection \<open>Normalisation\<close>

lemma dropWhile_none: "\<forall>c\<in>set s. \<not> P c \<Longrightarrow> dropWhile P s = s"
  by (cases s) simp_all

lemma trim_no_ws: "\<forall>c\<in>set s. \<not> is_ws c \<Longrightarrow> trim s = s"
  by (simp add: trim_def dropWhile_none)

lemma replace_ws_no_ws: "\<forall>c\<in>set s. \<not> is_ws c \<Longrightarrow> replace_ws s = s"
  by (simp add: replace_ws_def)

lemma no_ws_replace_ws: "\<forall>c\<in>set (replace_ws s). \<not> is_ws c"
  by (simp add: replace_ws_def)

lemma normalizeAnswer_no_ws:
  "case_mapping lc \<Longrightarrow> \<forall>c\<in>set (normalizeAnswer lc s). \<not> is_ws c"
  unfolding normalizeAnswer_def case_mapping_def using no_ws_replace_ws by blast

lemma normalizeAnswer_idem:
  assumes "case_mapping lc"
  shows "normalizeAnswer lc (normalizeAnswer lc s) = normalizeAnswer lc s"
proof -
  have nw: "\<forall>c\<in>set (normalizeAnswer lc s). \<not> is_ws c"
    using assms by (rule normalizeAnswer_no_ws)
  have "normalizeAnswer lc (normalizeAnswer lc s) = lc (normalizeAnswer lc s)"
    using nw by (simp add: normalizeAnswer_def [of lc "normalizeAnswer lc s"] trim_no_ws replace_ws_no_ws)
  also have "\<dots> = normalizeAnswer lc s"
    using assms by (simp add: normalizeAnswer_def case_mapping_def)
  finally show ?thesis .
qed

lemma normalizeAnswer_empty: "case_mapping lc \<Longrightarrow> normalizeAnswer lc [] = []"
  by (simp add: normalizeAnswer_def case_mapping_def trim_def replace_ws_def)

lemma isCloseMatch_distance:
  assumes "case_mapping lc"
  shows "isCloseMatch lc typed answer \<longleftrightarrow>
           normalizeAnswer lc typed \<noteq> [] \<and>
           (normalizeAnswer lc typed = normalizeAnswer lc answer \<or>
            distance (normalizeAnswer lc typed) (normalizeAnswer lc answer)
              \<le> (if 6 \<le> length (normalizeAnswer lc answer) then 2 else 1))"
  unfolding isCloseMatch_def Let_def levenshtein_recurrence normalizeAnswer_idem [OF assms]
  by auto

subsection \<open>Lower-casing ASCII letters is a case mapping\<close>

lemma unat_plus_32:
  fixes c :: code_unit
  assumes "c \<le> 0x5A"
  shows "unat (c + 0x20) = unat c + 32"
proof -
  have "unat c \<le> 90" using assms by (simp add: word_le_nat_alt)
  then have "unat c + unat (0x20 :: code_unit) < 2 ^ LENGTH(16)" by simp
  then have "unat (c + 0x20) = unat c + unat (0x20 :: code_unit)"
    by (simp only: unat_add_lem)
  then show ?thesis by simp
qed

lemma lower_unit_range:
  fixes c :: code_unit
  assumes "0x41 \<le> c" "c \<le> 0x5A"
  shows "0x61 \<le> c + 0x20 \<and> c + 0x20 \<le> 0x7A"
  using assms unat_plus_32 [OF assms(2)] by (simp add: word_le_nat_alt)

lemma not_ws_letter:
  fixes d :: code_unit
  assumes "0x61 \<le> d" "d \<le> 0x7A"
  shows "\<not> is_ws d"
  unfolding is_ws_def using assms by (auto simp add: word_le_nat_alt)

lemma lower_unit_idem:
  fixes c :: code_unit
  shows "(let d = (if 0x41 \<le> c \<and> c \<le> 0x5A then c + 0x20 else c)
          in if 0x41 \<le> d \<and> d \<le> 0x5A then d + 0x20 else d)
         = (if 0x41 \<le> c \<and> c \<le> 0x5A then c + 0x20 else c)"
proof (cases "0x41 \<le> c \<and> c \<le> 0x5A")
  case True
  then have "0x61 \<le> c + 0x20" using lower_unit_range [of c] by simp
  then have "\<not> c + 0x20 \<le> 0x5A" by (simp add: word_le_nat_alt)
  then show ?thesis using True by (simp add: Let_def)
next
  case False
  then show ?thesis by (simp add: Let_def)
qed

lemma ascii_lower_case_mapping: "case_mapping ascii_lower"
  unfolding case_mapping_def
proof (intro conjI allI impI ballI)
  show "ascii_lower [] = []" by (simp add: ascii_lower_def)
next
  fix s
  show "ascii_lower (ascii_lower s) = ascii_lower s"
    using lower_unit_idem by (simp add: ascii_lower_def Let_def)
next
  fix s c
  assume h: "\<forall>c\<in>set s. \<not> is_ws c" "c \<in> set (ascii_lower s)"
  then obtain c0 where c0: "c0 \<in> set s" "c = (if 0x41 \<le> c0 \<and> c0 \<le> 0x5A then c0 + 0x20 else c0)"
    by (auto simp add: ascii_lower_def)
  show "\<not> is_ws c"
  proof (cases "0x41 \<le> c0 \<and> c0 \<le> 0x5A")
    case True
    then show ?thesis using c0 lower_unit_range [of c0] not_ws_letter [of c] by simp
  next
    case False
    then have "c = c0" using c0(2) by simp
    then show ?thesis using c0(1) h(1) by blast
  qed
qed

subsection \<open>The contract of the matcher\<close>

text \<open>
  C5. For all strings \<open>a\<close> and \<open>b\<close>, \<^verbatim>\<open>levenshtein(a, b)\<close> is the value \<open>dp[n][m]\<close> of the
  recurrence with \<open>dp[i][0] = i\<close>, \<open>dp[0][j] = j\<close> and \<open>dp[i][j] = min(dp[i-1][j] + 1,
  dp[i][j-1] + 1, dp[i-1][j-1] + (s[i-1] != t[j-1] ? 1 : 0))\<close> on the two normalised
  strings, and that value is the classic Levenshtein distance between them: that many
  insertions, deletions and substitutions turn the first into the second, and no run of
  such edits is shorter.
\<close>

theorem levenshtein_classic:
  "levenshtein toLowerCase a b
     = recurrence (normalizeAnswer toLowerCase a) (normalizeAnswer toLowerCase b)
         (length (normalizeAnswer toLowerCase a)) (length (normalizeAnswer toLowerCase b))
   \<and> edits (levenshtein toLowerCase a b)
         (normalizeAnswer toLowerCase a) (normalizeAnswer toLowerCase b)
   \<and> (\<forall>k. edits k (normalizeAnswer toLowerCase a) (normalizeAnswer toLowerCase b)
          \<longrightarrow> levenshtein toLowerCase a b \<le> k)"
proof -
  let ?s = "normalizeAnswer toLowerCase a" and ?t = "normalizeAnswer toLowerCase b"
  have d: "levenshtein toLowerCase a b = distance ?s ?t"
    by (rule levenshtein_recurrence)
  have "distance ?s ?t = recurrence ?s ?t (length ?s) (length ?t)"
    by (simp add: distance_def)
  moreover have "edits (distance ?s ?t) ?s ?t"
    by (rule distance_edits)
  moreover have "\<forall>k. edits k ?s ?t \<longrightarrow> distance ?s ?t \<le> k"
    using distance_least [of _ ?s ?t] by blast
  ultimately show ?thesis
    unfolding d by blast
qed

theorem levenshtein_classic_witness:
  "normalizeAnswer ascii_lower [0x20, 0x41, 0x62, 0x58] = [0x61, 0x62, 0x78]
   \<and> normalizeAnswer ascii_lower [0x61, 0x62, 0x63] = [0x61, 0x62, 0x63]
   \<and> edits 1 [0x61, 0x62, 0x78 :: code_unit] [0x61, 0x62, 0x63]
   \<and> levenshtein ascii_lower [0x20, 0x41, 0x62, 0x58] [0x61, 0x62, 0x63] \<le> 1
   \<and> levenshtein ascii_lower [0x20, 0x41, 0x62, 0x58] [0x61, 0x62, 0x63]
       = recurrence [0x61, 0x62, 0x78 :: code_unit] [0x61, 0x62, 0x63] 3 3
   \<and> recurrence [0x61, 0x62, 0x78 :: code_unit] [0x61, 0x62, 0x63] 3 3 = 1"
proof -
  have n1: "normalizeAnswer ascii_lower [0x20, 0x41, 0x62, 0x58] = [0x61, 0x62, 0x78]"
    by code_simp
  have n2: "normalizeAnswer ascii_lower [0x61, 0x62, 0x63] = [0x61, 0x62, 0x63]"
    by code_simp
  have e: "edits 1 [0x61, 0x62, 0x78 :: code_unit] [0x61, 0x62, 0x63]"
    using edit_step.substitution [of "[0x61, 0x62 :: code_unit]" "0x78" "[]" "0x63"]
    by (intro edits_step) simp
  have r: "recurrence [0x61, 0x62, 0x78 :: code_unit] [0x61, 0x62, 0x63] 3 3 = 1"
    by code_simp
  show ?thesis
    using levenshtein_classic [of ascii_lower "[0x20, 0x41, 0x62, 0x58]" "[0x61, 0x62, 0x63]"]
      n1 n2 e r
    by simp
qed

text \<open>
  C4. \<^verbatim>\<open>isCloseMatch(typed, answer)\<close> is true exactly when the normalised typed string
  is not empty and either equals the normalised answer or is at Levenshtein distance at
  most the tolerance from it, the tolerance being 2 when the normalised answer has
  length at least 6 and 1 otherwise; and \<^verbatim>\<open>isCloseMatch("", answer)\<close> is false for every
  answer. This holds for every \<^verbatim>\<open>toLowerCase\<close> that is a case mapping.
\<close>

theorem isCloseMatch_iff:
  assumes "case_mapping toLowerCase"
  shows "(isCloseMatch toLowerCase typed answer \<longleftrightarrow>
            normalizeAnswer toLowerCase typed \<noteq> [] \<and>
            (normalizeAnswer toLowerCase typed = normalizeAnswer toLowerCase answer \<or>
             distance (normalizeAnswer toLowerCase typed) (normalizeAnswer toLowerCase answer)
               \<le> (if 6 \<le> length (normalizeAnswer toLowerCase answer) then 2 else 1)))
         \<and> \<not> isCloseMatch toLowerCase [] answer"
  using isCloseMatch_distance [OF assms, of typed answer]
    isCloseMatch_distance [OF assms, of "[]" answer] normalizeAnswer_empty [OF assms]
  by simp

theorem isCloseMatch_iff_witness:
  "case_mapping ascii_lower
   \<and> normalizeAnswer ascii_lower [0x20, 0x41, 0x62, 0x58] = [0x61, 0x62, 0x78]
   \<and> normalizeAnswer ascii_lower [0x61, 0x62, 0x63] = [0x61, 0x62, 0x63]
   \<and> distance [0x61, 0x62, 0x78 :: code_unit] [0x61, 0x62, 0x63] = 1
   \<and> isCloseMatch ascii_lower [0x20, 0x41, 0x62, 0x58] [0x61, 0x62, 0x63]
   \<and> \<not> isCloseMatch ascii_lower [] [0x61, 0x62, 0x63]"
proof -
  have n1: "normalizeAnswer ascii_lower [0x20, 0x41, 0x62, 0x58] = [0x61, 0x62, 0x78]"
    by code_simp
  have n2: "normalizeAnswer ascii_lower [0x61, 0x62, 0x63] = [0x61, 0x62, 0x63]"
    by code_simp
  have d: "distance [0x61, 0x62, 0x78 :: code_unit] [0x61, 0x62, 0x63] = 1"
    by code_simp
  show ?thesis
    using isCloseMatch_iff
      [OF ascii_lower_case_mapping, of "[0x20, 0x41, 0x62, 0x58]" "[0x61, 0x62, 0x63]"]
      ascii_lower_case_mapping n1 n2 d
    by simp
qed

text \<open>
  C10. When the normalised answer is the empty string and the normalised typed string
  has length exactly 1, \<^verbatim>\<open>isCloseMatch(typed, answer)\<close> is true, for every
  \<^verbatim>\<open>toLowerCase\<close> that is a case mapping.
\<close>

theorem isCloseMatch_blank_answer:
  assumes "case_mapping toLowerCase"
    and "normalizeAnswer toLowerCase answer = []"
    and "length (normalizeAnswer toLowerCase typed) = 1"
  shows "isCloseMatch toLowerCase typed answer"
proof -
  have "distance (normalizeAnswer toLowerCase typed) [] = 1"
    using assms(3) by (simp add: distance_def recurrence_empty_right)
  moreover have "normalizeAnswer toLowerCase typed \<noteq> []"
    using assms(3) by auto
  ultimately show ?thesis
    using assms(2) by (simp add: isCloseMatch_distance [OF assms(1)])
qed

theorem isCloseMatch_blank_answer_witness:
  "case_mapping ascii_lower
   \<and> normalizeAnswer ascii_lower [0x20, 0x09] = []
   \<and> length (normalizeAnswer ascii_lower [0x20, 0x51]) = 1
   \<and> isCloseMatch ascii_lower [0x20, 0x51] [0x20, 0x09]
   \<and> \<not> isCloseMatch ascii_lower [0x20] [0x20, 0x09]"
proof -
  have a: "normalizeAnswer ascii_lower [0x20, 0x09] = []"
    by code_simp
  have t: "length (normalizeAnswer ascii_lower [0x20, 0x51]) = 1"
    by code_simp
  have b: "\<not> isCloseMatch ascii_lower [0x20] [0x20, 0x09]"
    by code_simp
  show ?thesis
    using isCloseMatch_blank_answer [OF ascii_lower_case_mapping a t]
      ascii_lower_case_mapping a t b
    by simp
qed

end
